theory Spec2Isabelle
  imports Main "HOL-Library.Sublist"
begin

section \<open>Data model\<close>

text \<open>
  The pre-simulation filter works on values of the Solana client library. Only the parts
  the filter reads are kept. A public key is identified with its base58 string, which is
  what \<open>key.toBase58()\<close> returns and what the filter compares.
\<close>

datatype PublicKey = PublicKey (toBase58: string)

record MessageAddressTableLookup =
  accountKey :: PublicKey
  writableIndexes :: "nat list"
  readonlyIndexes :: "nat list"

record MessageV0 =
  staticAccountKeys :: "PublicKey list"
  addressTableLookups :: "MessageAddressTableLookup list"

record VersionedTransaction =
  signatures :: "string list"
  message :: MessageV0

record AddressLookupTableAccount =
  key :: PublicKey
  addresses :: "PublicKey list"

record MessageAccountKeys =
  keySegments :: "PublicKey list list"

record Timings =
  mempoolEnd :: int
  preSimEnd :: int
  simEnd :: int
  postSimEnd :: int
  calcArbEnd :: int
  buildBundleEnd :: int
  bundleSent :: int

text \<open>
  A mempool update is destructured as \<open>{ txns, timings }\<close> by the loop of the filter. The
  second field is called \<open>mempoolTimings\<close> here, because \<open>timings\<close> is also a field of the
  output record below.
\<close>

record MempoolUpdate =
  txns :: "VersionedTransaction list"
  mempoolTimings :: Timings

record FilteredTransaction =
  txn :: VersionedTransaction
  accountsOfInterest :: "string list"
  timings :: Timings

section \<open>Constants of the filter\<close>

definition SKIP_TX_IF_CONTAINS_ADDRESS :: "string list" where
  "SKIP_TX_IF_CONTAINS_ADDRESS = [''882DFRCi5akKFyYxT4PP2vZkoQEGvm2Nsind2nPDuGqu'']"

definition HIGH_WATER_MARK :: nat where
  "HIGH_WATER_MARK = 250"

section \<open>Collaborators and effects\<close>

text \<open>
  The filter calls four things it does not define: the lookup-table provider
  (\<open>null\<close> is \<open>None\<close>), the library's \<open>getAccountKeys\<close> (a thrown error is \<open>Inl\<close> of its
  message), the market registry's predicate and the clock. They are parameters of the
  model. \<open>now env n\<close> is what the \<open>n\<close>-th call of \<open>Date.now()\<close> returns. The provider
  is taken to answer every call, with a table or with \<open>null\<close>, and to give the same answer
  for the same key throughout a run; the predicate is pure.
\<close>

record Env =
  getLookupTable :: "PublicKey \<Rightarrow> AddressLookupTableAccount option"
  getAccountKeys :: "MessageV0 \<Rightarrow> AddressLookupTableAccount list \<Rightarrow> string + MessageAccountKeys"
  isTokenAccountOfInterest :: "string \<Rightarrow> bool"
  now :: "nat \<Rightarrow> int"

datatype LogEntry = Warn string string | Debug nat

text \<open>
  What the filter does to the outside is recorded in order: the keys handed to the
  lookup-table provider, the table lists handed to \<open>getAccountKeys\<close>, the log lines, and
  the number of clock readings taken so far.
\<close>

record World =
  resolverCalls :: "PublicKey list"
  keyListCalls :: "AddressLookupTableAccount list list"
  logged :: "LogEntry list"
  clockReads :: nat

datatype error = TypeError

section \<open>The body of the loop over transactions\<close>

text \<open>
  Lines 53 to 63: the tables are fetched one reference after the other; the first
  \<open>null\<close> leaves the loop with the tables pushed so far.
\<close>

fun resolveLookups ::
  "Env \<Rightarrow> MessageAddressTableLookup list \<Rightarrow> AddressLookupTableAccount list \<Rightarrow> World
    \<Rightarrow> AddressLookupTableAccount list \<times> World" where
  "resolveLookups env [] addressLookupTableAccounts w = (addressLookupTableAccounts, w)"
| "resolveLookups env (lookup # rest) addressLookupTableAccounts w =
    (let w' = w\<lparr>resolverCalls := resolverCalls w @ [accountKey lookup]\<rparr> in
     case getLookupTable env (accountKey lookup) of
       None \<Rightarrow> (addressLookupTableAccounts, w')
     | Some lut \<Rightarrow> resolveLookups env rest (addressLookupTableAccounts @ [lut]) w')"

text \<open>
  Lines 66 to 74: \<open>accountKeys\<close> starts as \<open>null\<close>; a thrown error is logged as a warning
  and leaves it \<open>null\<close>.
\<close>

definition buildAccountKeys ::
  "Env \<Rightarrow> VersionedTransaction \<Rightarrow> AddressLookupTableAccount list \<Rightarrow> World
    \<Rightarrow> MessageAccountKeys option \<times> World" where
  "buildAccountKeys env tx addressLookupTableAccounts w =
    (let w' = w\<lparr>keyListCalls := keyListCalls w @ [addressLookupTableAccounts]\<rparr> in
     case getAccountKeys env (message tx) addressLookupTableAccounts of
       Inl e \<Rightarrow> (None, w'\<lparr>logged := logged w' @ [Warn e ''address not in lookup table'']\<rparr>)
     | Inr accountKeys \<Rightarrow> (Some accountKeys, w'))"

text \<open>
  A JavaScript \<open>Set\<close> of strings keeps its elements in insertion order and ignores the
  insertion of an element it has; spreading it into an array gives that order.
\<close>

definition setAdd :: "string list \<Rightarrow> string \<Rightarrow> string list" where
  "setAdd s x = (if x \<in> set s then s else s @ [x])"

text \<open>
  Lines 77 to 96: the scan of the flattened key list. \<open>examined\<close> is not a variable of the
  source: it lists the keys on which the loop body ran.
\<close>

record Scan =
  accountsOfInterestSet :: "string list"
  skipTx :: bool
  examined :: "string list"

definition scanStart :: Scan where
  "scanStart = \<lparr>accountsOfInterestSet = [], skipTx = False, examined = []\<rparr>"

fun scanKeys :: "Env \<Rightarrow> PublicKey list \<Rightarrow> Scan \<Rightarrow> Scan" where
  "scanKeys env [] s = s"
| "scanKeys env (k # ks) s =
    (let keyStr = toBase58 k;
         s1 = s\<lparr>examined := examined s @ [keyStr]\<rparr>
     in if keyStr \<in> set SKIP_TX_IF_CONTAINS_ADDRESS then s1\<lparr>skipTx := True\<rparr>
        else if isTokenAccountOfInterest env keyStr
          then scanKeys env ks (s1\<lparr>accountsOfInterestSet := setAdd (accountsOfInterestSet s1) keyStr\<rparr>)
          else scanKeys env ks s1)"

text \<open>
  One pass of the loop body for one transaction: it goes on to the next transaction,
  yields a record, or throws. \<open>accountKeys.keySegments()\<close> on \<open>null\<close> is a \<open>TypeError\<close>,
  which nothing in the generator catches.
\<close>

datatype Step = Continue | Yield FilteredTransaction | Throw error

definition processTxn :: "Env \<Rightarrow> Timings \<Rightarrow> VersionedTransaction \<Rightarrow> World \<Rightarrow> Step \<times> World" where
  "processTxn env tm tx w =
    (case resolveLookups env (addressTableLookups (message tx)) [] w of
       (addressLookupTableAccounts, w1) \<Rightarrow>
        (case buildAccountKeys env tx addressLookupTableAccounts w1 of
           (None, w2) \<Rightarrow> (Throw TypeError, w2)
         | (Some accountKeys, w2) \<Rightarrow>
            (let s = scanKeys env (concat (keySegments accountKeys)) scanStart in
             if skipTx s then (Continue, w2)
             else if length (accountsOfInterestSet s) = 0 then (Continue, w2)
             else
               (Yield \<lparr>txn = tx,
                       accountsOfInterest = accountsOfInterestSet s,
                       timings = \<lparr>mempoolEnd = mempoolEnd tm,
                                  preSimEnd = now env (clockReads w2),
                                  simEnd = 0, postSimEnd = 0, calcArbEnd = 0,
                                  buildBundleEnd = 0, bundleSent = 0\<rparr>\<rparr>,
                w2\<lparr>logged := logged w2 @ [Debug (length (accountsOfInterestSet s))],
                    clockReads := Suc (clockReads w2)\<rparr>))))"

section \<open>The generator\<close>

text \<open>
  A run of the generator over finitely many updates, as seen by a consumer that keeps
  pulling: the records yielded in order, the error it ended with if it threw, and the
  effects. After a throw the generator is finished, so nothing later is processed.
\<close>

record Run =
  emitted :: "FilteredTransaction list"
  thrown :: "error option"
  world :: World

fun forTxns :: "Env \<Rightarrow> Timings \<Rightarrow> VersionedTransaction list \<Rightarrow> World \<Rightarrow> Run" where
  "forTxns env tm [] w = \<lparr>emitted = [], thrown = None, world = w\<rparr>"
| "forTxns env tm (tx # rest) w =
    (case processTxn env tm tx w of
       (Throw e, w') \<Rightarrow> \<lparr>emitted = [], thrown = Some e, world = w'\<rparr>
     | (Continue, w') \<Rightarrow> forTxns env tm rest w'
     | (Yield f, w') \<Rightarrow> (let r = forTxns env tm rest w' in r\<lparr>emitted := f # emitted r\<rparr>))"

fun forUpdates :: "Env \<Rightarrow> MempoolUpdate list \<Rightarrow> World \<Rightarrow> Run" where
  "forUpdates env [] w = \<lparr>emitted = [], thrown = None, world = w\<rparr>"
| "forUpdates env (u # rest) w =
    (let r = forTxns env (mempoolTimings u) (txns u) w in
     case thrown r of
       Some e \<Rightarrow> r
     | None \<Rightarrow> (let r' = forUpdates env rest (world r) in r'\<lparr>emitted := emitted r @ emitted r'\<rparr>))"

text \<open>
  \<open>preSimulationFilter\<close> from line 47 on; the argument is the sequence of updates that
  \<open>mempoolUpdatesGreedy\<close> hands to the \<open>for await\<close> loop.
\<close>

definition preSimulationFilter :: "Env \<Rightarrow> MempoolUpdate list \<Rightarrow> World \<Rightarrow> Run" where
  "preSimulationFilter env mempoolUpdatesGreedy w = forUpdates env mempoolUpdatesGreedy w"

definition world0 :: World where
  "world0 = \<lparr>resolverCalls = [], keyListCalls = [], logged = [], clockReads = 0\<rparr>"

section \<open>An instance of the library call\<close>

text \<open>
  \<open>getAccountKeys\<close> belongs to the Solana client library, not to this repository, and
  every statement below about the filter holds for any function in its place. The
  examples need one: this instance follows the library's documented behaviour for
  version-0 messages. Each lookup is matched with the table of the same key among the
  tables given (an error if there is none), each index is read from that table (an error
  if it is out of range), and the segments are the static keys, the writable looked-up
  keys and the read-only looked-up keys.
\<close>

fun findTable :: "AddressLookupTableAccount list \<Rightarrow> PublicKey \<Rightarrow> AddressLookupTableAccount option" where
  "findTable [] k = None"
| "findTable (a # rest) k = (if key a = k then Some a else findTable rest k)"

fun selectAddresses :: "PublicKey list \<Rightarrow> nat list \<Rightarrow> string + PublicKey list" where
  "selectAddresses tbl [] = Inr []"
| "selectAddresses tbl (i # rest) =
    (if i < length tbl
     then (case selectAddresses tbl rest of Inl e \<Rightarrow> Inl e | Inr ks \<Rightarrow> Inr (tbl ! i # ks))
     else Inl ''Failed to find address for index'')"

fun resolveAddressTableLookups ::
  "MessageAddressTableLookup list \<Rightarrow> AddressLookupTableAccount list
    \<Rightarrow> string + (PublicKey list \<times> PublicKey list)" where
  "resolveAddressTableLookups [] luts = Inr ([], [])"
| "resolveAddressTableLookups (l # rest) luts =
    (case findTable luts (accountKey l) of
       None \<Rightarrow> Inl ''Failed to find address lookup table account''
     | Some t \<Rightarrow>
        (case selectAddresses (addresses t) (writableIndexes l) of
           Inl e \<Rightarrow> Inl e
         | Inr ws \<Rightarrow>
            (case selectAddresses (addresses t) (readonlyIndexes l) of
               Inl e \<Rightarrow> Inl e
             | Inr rs \<Rightarrow>
                (case resolveAddressTableLookups rest luts of
                   Inl e \<Rightarrow> Inl e
                 | Inr (wr, ro) \<Rightarrow> Inr (ws @ wr, rs @ ro)))))"

definition libGetAccountKeys ::
  "MessageV0 \<Rightarrow> AddressLookupTableAccount list \<Rightarrow> string + MessageAccountKeys" where
  "libGetAccountKeys m luts =
    (case resolveAddressTableLookups (addressTableLookups m) luts of
       Inl e \<Rightarrow> Inl e
     | Inr (wr, ro) \<Rightarrow> Inr \<lparr>keySegments = [staticAccountKeys m, wr, ro]\<rparr>)"

section \<open>Example inputs\<close>

text \<open>
  One lookup table \<open>T1\<close> is known to the provider; \<open>B\<close>, \<open>C\<close> and \<open>Y\<close> are accounts of
  interest; the clock starts at 1000 and advances by one per reading.
\<close>

definition tableT1 :: AddressLookupTableAccount where
  "tableT1 = \<lparr>key = PublicKey ''T1'', addresses = [PublicKey ''X'', PublicKey ''Y'']\<rparr>"

definition exEnv :: Env where
  "exEnv = \<lparr>getLookupTable = (\<lambda>k. if k = PublicKey ''T1'' then Some tableT1 else None),
            getAccountKeys = libGetAccountKeys,
            isTokenAccountOfInterest = (\<lambda>s. s \<in> set [''B'', ''C'', ''Y'']),
            now = (\<lambda>n. 1000 + int n)\<rparr>"

definition mkTxn :: "string list \<Rightarrow> MessageAddressTableLookup list \<Rightarrow> VersionedTransaction" where
  "mkTxn ks ls = \<lparr>signatures = [], message = \<lparr>staticAccountKeys = map PublicKey ks, addressTableLookups = ls\<rparr>\<rparr>"

definition mkLookup :: "string \<Rightarrow> nat list \<Rightarrow> nat list \<Rightarrow> MessageAddressTableLookup" where
  "mkLookup k ws rs = \<lparr>accountKey = PublicKey k, writableIndexes = ws, readonlyIndexes = rs\<rparr>"

definition mkTimings :: "int \<Rightarrow> Timings" where
  "mkTimings t = \<lparr>mempoolEnd = t, preSimEnd = 0, simEnd = 0, postSimEnd = 0, calcArbEnd = 0,
                  buildBundleEnd = 0, bundleSent = 0\<rparr>"

definition txPlain :: VersionedTransaction where
  "txPlain = mkTxn [''A'', ''B'', ''C'', ''B''] []"

definition txLast :: VersionedTransaction where
  "txLast = mkTxn [''C''] []"

definition txViaTable :: VersionedTransaction where
  "txViaTable = mkTxn [''A''] [mkLookup ''T1'' [1] [0]]"

definition txUnresolved :: VersionedTransaction where
  "txUnresolved = mkTxn [''B''] [mkLookup ''T1'' [0] [], mkLookup ''T9'' [0] []]"

definition txMalformed :: VersionedTransaction where
  "txMalformed = mkTxn [''B''] [mkLookup ''T1'' [7] []]"

definition txSkipped :: VersionedTransaction where
  "txSkipped = mkTxn [''B'', ''882DFRCi5akKFyYxT4PP2vZkoQEGvm2Nsind2nPDuGqu'', ''C''] []"

definition txBoring :: VersionedTransaction where
  "txBoring = mkTxn [''A'', ''X''] []"

section \<open>Notions used in the statements\<close>

text \<open>The value of \<open>addressLookupTableAccounts\<close> when the loop of line 56 is left.\<close>

definition tablesFor :: "Env \<Rightarrow> VersionedTransaction \<Rightarrow> World \<Rightarrow> AddressLookupTableAccount list" where
  "tablesFor env tx w = fst (resolveLookups env (addressTableLookups (message tx)) [] w)"

text \<open>The value of \<open>accountKeys\<close> after line 74: \<open>None\<close> is \<open>null\<close>.\<close>

definition accountKeysOf :: "Env \<Rightarrow> VersionedTransaction \<Rightarrow> World \<Rightarrow> MessageAccountKeys option" where
  "accountKeysOf env tx w =
    (case resolveLookups env (addressTableLookups (message tx)) [] w of
       (luts, w1) \<Rightarrow> fst (buildAccountKeys env tx luts w1))"

definition skipListed :: "PublicKey \<Rightarrow> bool" where
  "skipListed k = (toBase58 k \<in> set SKIP_TX_IF_CONTAINS_ADDRESS)"

definition ofInterest :: "Env \<Rightarrow> PublicKey \<Rightarrow> bool" where
  "ofInterest env k = isTokenAccountOfInterest env (toBase58 k)"

definition resolved :: "Env \<Rightarrow> MessageAddressTableLookup \<Rightarrow> bool" where
  "resolved env l = (getLookupTable env (accountKey l) \<noteq> None)"

text \<open>
  The distinct elements of a list in the order of their first occurrence: the head
  comes first, and later copies of it are removed from what follows.
\<close>

fun firstSeen :: "'a list \<Rightarrow> 'a list" where
  "firstSeen [] = []"
| "firstSeen (x # xs) = x # filter (\<lambda>y. y \<noteq> x) (firstSeen xs)"

fun isYield :: "Step \<Rightarrow> bool" where
  "isYield (Yield f) = True"
| "isYield Continue = False"
| "isYield (Throw e) = False"

text \<open>
  A transaction passes when the loop body yields a record for it. Neither the timings of
  the update nor the effects so far have a say in that (lemma \<open>passes_any\<close> below).
\<close>

definition passes :: "Env \<Rightarrow> VersionedTransaction \<Rightarrow> bool" where
  "passes env tx = isYield (fst (processTxn env (mkTimings 0) tx world0))"

definition txFirstMissing :: VersionedTransaction where
  "txFirstMissing = mkTxn [''B''] [mkLookup ''T9'' [0] [], mkLookup ''T1'' [0] []]"

definition orcaKey :: PublicKey where
  "orcaKey = PublicKey ''882DFRCi5akKFyYxT4PP2vZkoQEGvm2Nsind2nPDuGqu''"

definition keysSkipped :: MessageAccountKeys where
  "keysSkipped = \<lparr>keySegments = [[PublicKey ''B'', orcaKey, PublicKey ''C''], [], []]\<rparr>"

definition keysPlain :: MessageAccountKeys where
  "keysPlain = \<lparr>keySegments = [map PublicKey [''A'', ''B'', ''C'', ''B''], [], []]\<rparr>"

definition keysBoring :: MessageAccountKeys where
  "keysBoring = \<lparr>keySegments = [map PublicKey [''A'', ''X''], [], []]\<rparr>"

definition ftPlain :: "int \<Rightarrow> FilteredTransaction" where
  "ftPlain t = \<lparr>txn = txPlain, accountsOfInterest = [''B'', ''C''],
                 timings = \<lparr>mempoolEnd = 900, preSimEnd = t, simEnd = 0, postSimEnd = 0,
                            calcArbEnd = 0, buildBundleEnd = 0, bundleSent = 0\<rparr>\<rparr>"

definition exUpdate :: "VersionedTransaction list \<Rightarrow> MempoolUpdate" where
  "exUpdate ts = \<lparr>txns = ts, mempoolTimings = mkTimings 900\<rparr>"

definition lateUpdate :: MempoolUpdate where
  "lateUpdate = \<lparr>txns = [txLast], mempoolTimings = mkTimings 2000\<rparr>"

section \<open>The bounded relay\<close>

text \<open>
  Modelled from the spec: \<open>dropBeyondHighWaterMark\<close> is imported from \<open>./utils.js\<close>, which
  is not among the sources. Section 4.1 of the specification describes it as a buffer of
  produced and not yet consumed batches with a fixed positive capacity, whose push, evict
  and pop are atomic (section 5). The buffer is kept oldest first; \<open>discarded\<close> collects
  what was evicted, in the order of eviction.
\<close>

record 'a Relay =
  capacity :: nat
  buffer :: "'a list"
  discarded :: "'a list"

text \<open>Modelled from the spec: a relay starts with nothing buffered and nothing discarded.\<close>

definition relayNew :: "nat \<Rightarrow> 'a Relay" where
  "relayNew n = \<lparr>capacity = n, buffer = [], discarded = []\<rparr>"

text \<open>
  Modelled from the spec: when a new batch arrives and the buffer is already at capacity,
  the oldest buffered batch is discarded; the new batch is retained in either case. A
  buffer that is empty and at capacity only exists for capacity zero, which the spec
  excludes; nothing is discarded then.
\<close>

definition relayPush :: "'a Relay \<Rightarrow> 'a \<Rightarrow> 'a Relay" where
  "relayPush r b =
    (if capacity r \<le> length (buffer r)
     then (case buffer r of
             [] \<Rightarrow> r\<lparr>buffer := [b]\<rparr>
           | oldest # newer \<Rightarrow> r\<lparr>buffer := newer @ [b], discarded := discarded r @ [oldest]\<rparr>)
     else r\<lparr>buffer := buffer r @ [b]\<rparr>)"

text \<open>
  Modelled from the spec: the consumer takes the oldest retained batch; with nothing
  retained it gets nothing and the relay is unchanged.
\<close>

definition relayPull :: "'a Relay \<Rightarrow> 'a option \<times> 'a Relay" where
  "relayPull r =
    (case buffer r of
       [] \<Rightarrow> (None, r)
     | b # newer \<Rightarrow> (Some b, r\<lparr>buffer := newer\<rparr>))"

text \<open>
  Modelled from the spec: producer and consumer run independently, so a history of the
  relay is any interleaving of arrivals and consumptions, each atomic. The second
  component lists what the consumer received, in order.
\<close>

datatype 'a RelayEvent = Arrive 'a | Consume

fun relayRun :: "'a RelayEvent list \<Rightarrow> 'a Relay \<times> 'a list \<Rightarrow> 'a Relay \<times> 'a list" where
  "relayRun [] st = st"
| "relayRun (Arrive b # es) (r, out) = relayRun es (relayPush r b, out)"
| "relayRun (Consume # es) (r, out) =
    (case relayPull r of
       (None, r') \<Rightarrow> relayRun es (r', out)
     | (Some b, r') \<Rightarrow> relayRun es (r', out @ [b]))"

text \<open>
  Modelled from the spec: the relay of capacity \<open>highWaterMark\<close> after a history, started
  empty.
\<close>

definition dropBeyondHighWaterMark :: "nat \<Rightarrow> 'a RelayEvent list \<Rightarrow> 'a Relay \<times> 'a list" where
  "dropBeyondHighWaterMark highWaterMark events = relayRun events (relayNew highWaterMark, [])"

section \<open>First-seen order and the scan\<close>

text \<open>
  \<open>firstSeen\<close> appends an element exactly when it has not occurred before, which is what
  a \<open>Set\<close> does with the insertions of the scan.
\<close>

lemma set_firstSeen: "set (firstSeen xs) = set xs"
  by (induction xs) auto

lemma distinct_firstSeen: "distinct (firstSeen xs)"
  by (induction xs) (auto simp: set_firstSeen)

lemma firstSeen_snoc:
  "firstSeen (xs @ [x]) = (if x \<in> set xs then firstSeen xs else firstSeen xs @ [x])"
  by (induction xs) auto

lemma firstSeen_remdups: "firstSeen xs = rev (remdups (rev xs))"
proof (induction xs rule: rev_induct)
  case Nil
  then show ?case by simp
next
  case (snoc x xs)
  then show ?case by (simp add: firstSeen_snoc)
qed

lemma foldl_setAdd:
  "foldl setAdd acc xs = acc @ filter (\<lambda>y. y \<notin> set acc) (firstSeen xs)"
proof (induction xs arbitrary: acc)
  case Nil
  then show ?case by simp
next
  case (Cons x xs)
  show ?case
  proof (cases "x \<in> set acc")
    case True
    have "filter (\<lambda>y. y \<notin> set acc) (filter (\<lambda>y. y \<noteq> x) (firstSeen xs)) = filter (\<lambda>y. y \<notin> set acc) (firstSeen xs)"
      using True by (auto intro: filter_cong)
    with True Cons show ?thesis by (simp add: setAdd_def)
  next
    case False
    have "filter (\<lambda>y. y \<notin> set (acc @ [x])) (firstSeen xs) = filter (\<lambda>y. y \<notin> set acc) (filter (\<lambda>y. y \<noteq> x) (firstSeen xs))"
      by (auto intro: filter_cong)
    with False Cons[of "acc @ [x]"] show ?thesis by (simp add: setAdd_def)
  qed
qed

lemma scanKeys_no_skip:
  "\<forall>k\<in>set ks. \<not> skipListed k \<Longrightarrow>
   scanKeys env ks s =
     s\<lparr>examined := examined s @ map toBase58 ks,
       accountsOfInterestSet :=
         foldl setAdd (accountsOfInterestSet s) (map toBase58 (filter (ofInterest env) ks))\<rparr>"
  by (induction ks arbitrary: s) (auto simp: skipListed_def ofInterest_def Let_def)

lemma scanKeys_skip:
  "\<forall>k\<in>set pre. \<not> skipListed k \<Longrightarrow> skipListed k0 \<Longrightarrow>
   scanKeys env (pre @ k0 # post) s =
     s\<lparr>examined := examined s @ map toBase58 pre @ [toBase58 k0],
       accountsOfInterestSet :=
         foldl setAdd (accountsOfInterestSet s) (map toBase58 (filter (ofInterest env) pre)),
       skipTx := True\<rparr>"
  by (induction pre arbitrary: s) (auto simp: skipListed_def ofInterest_def Let_def)

lemma resolveLookups_fst_world:
  "fst (resolveLookups env ls acc w) = fst (resolveLookups env ls acc w')"
  by (induction ls arbitrary: acc w w') (auto simp: Let_def split: option.splits)

lemma resolveLookups_world:
  "snd (resolveLookups env ls acc w) =
     w\<lparr>resolverCalls := resolverCalls w @ map accountKey (takeWhile (resolved env) ls @ take 1 (dropWhile (resolved env) ls))\<rparr>"
  by (induction ls arbitrary: acc w) (auto simp: Let_def resolved_def split: option.splits)

lemma resolveLookups_tables:
  "fst (resolveLookups env ls acc w) =
     acc @ map (\<lambda>l. the (getLookupTable env (accountKey l))) (takeWhile (resolved env) ls)"
  by (induction ls arbitrary: acc w) (auto simp: Let_def resolved_def split: option.splits)

section \<open>One transaction\<close>

lemma tablesFor_any: "tablesFor env tx w = tablesFor env tx w'"
  unfolding tablesFor_def by (rule resolveLookups_fst_world)

lemma accountKeysOf_eq:
  "accountKeysOf env tx w =
     (case getAccountKeys env (message tx) (tablesFor env tx w) of
        Inl e \<Rightarrow> None | Inr ak \<Rightarrow> Some ak)"
  by (simp add: accountKeysOf_def tablesFor_def buildAccountKeys_def Let_def
      split: prod.splits sum.splits)

lemma accountKeysOf_any: "accountKeysOf env tx w = accountKeysOf env tx w'"
  by (simp add: accountKeysOf_eq tablesFor_any[of env tx w w'])

lemma processTxn_null:
  "accountKeysOf env tx w = None \<Longrightarrow> fst (processTxn env tm tx w) = Throw TypeError"
  by (auto simp: accountKeysOf_def processTxn_def split: prod.splits option.splits)

lemma resolveLookups_rest:
  assumes "resolveLookups env ls acc w = (luts, w1)"
  shows "clockReads w1 = clockReads w" and "logged w1 = logged w"
    and "keyListCalls w1 = keyListCalls w"
    and "resolverCalls w1 = resolverCalls w @ map accountKey (takeWhile (resolved env) ls @ take 1 (dropWhile (resolved env) ls))"
proof -
  have "w1 = snd (resolveLookups env ls acc w)" using assms by simp
  then have w1: "w1 = w\<lparr>resolverCalls := resolverCalls w @ map accountKey (takeWhile (resolved env) ls @ take 1 (dropWhile (resolved env) ls))\<rparr>"
    by (simp only: resolveLookups_world)
  show "clockReads w1 = clockReads w" by (simp add: w1)
  show "logged w1 = logged w" by (simp add: w1)
  show "keyListCalls w1 = keyListCalls w" by (simp add: w1)
  show "resolverCalls w1 = resolverCalls w @ map accountKey (takeWhile (resolved env) ls @ take 1 (dropWhile (resolved env) ls))"
    by (simp add: w1)
qed

lemma processTxn_some:
  "accountKeysOf env tx w = Some ak \<Longrightarrow>
   fst (processTxn env tm tx w) =
     (let s = scanKeys env (concat (keySegments ak)) scanStart in
      if skipTx s \<or> accountsOfInterestSet s = [] then Continue
      else Yield \<lparr>txn = tx, accountsOfInterest = accountsOfInterestSet s,
                  timings = \<lparr>mempoolEnd = mempoolEnd tm,
                             preSimEnd = now env (clockReads w),
                             simEnd = 0, postSimEnd = 0, calcArbEnd = 0,
                             buildBundleEnd = 0, bundleSent = 0\<rparr>\<rparr>)"
  by (auto simp: accountKeysOf_def processTxn_def buildAccountKeys_def Let_def
      dest: resolveLookups_rest(1)
      split: prod.splits option.splits sum.splits)

lemma processTxn_clock:
  "clockReads (snd (processTxn env tm tx w)) =
     (if isYield (fst (processTxn env tm tx w)) then Suc (clockReads w) else clockReads w)"
  by (auto simp: processTxn_def buildAccountKeys_def Let_def
      dest: resolveLookups_rest(1)
      split: prod.splits option.splits sum.splits)

lemma processTxn_resolverCalls:
  "resolverCalls (snd (processTxn env tm tx w)) =
     resolverCalls w @ map accountKey
       (takeWhile (resolved env) (addressTableLookups (message tx)) @
        take 1 (dropWhile (resolved env) (addressTableLookups (message tx))))"
  by (auto simp: processTxn_def buildAccountKeys_def Let_def
      dest: resolveLookups_rest(4)
      split: prod.splits option.splits sum.splits)

lemma processTxn_keyListCalls:
  "keyListCalls (snd (processTxn env tm tx w)) = keyListCalls w @ [tablesFor env tx w]"
  by (auto simp: processTxn_def buildAccountKeys_def Let_def tablesFor_def
      dest: resolveLookups_rest(3)
      split: prod.splits option.splits sum.splits)

lemma processTxn_logged:
  "logged (snd (processTxn env tm tx w)) =
     logged w @
     (case getAccountKeys env (message tx) (tablesFor env tx w) of
        Inl e \<Rightarrow> [Warn e ''address not in lookup table'']
      | Inr ak \<Rightarrow>
         (case fst (processTxn env tm tx w) of
            Yield f \<Rightarrow> [Debug (length (accountsOfInterest f))]
          | _ \<Rightarrow> []))"
  by (auto simp: processTxn_def buildAccountKeys_def Let_def tablesFor_def
      dest: resolveLookups_rest(2)
      split: prod.splits option.splits sum.splits)

lemma scan_skip_found:
  assumes "k \<in> set ks" "skipListed k"
  shows "\<exists>pre k0 post. ks = pre @ k0 # post \<and> (\<forall>k'\<in>set pre. \<not> skipListed k') \<and> skipListed k0"
proof -
  from assms have "\<exists>x\<in>set ks. skipListed x" by blast
  then obtain pre k0 post where "ks = pre @ k0 # post" "skipListed k0" "\<forall>k'\<in>set pre. \<not> skipListed k'"
    by (auto simp: split_list_first_prop_iff)
  then show ?thesis by blast
qed

lemma processTxn_skip:
  assumes "accountKeysOf env tx w = Some ak" "k \<in> set (concat (keySegments ak))" "skipListed k"
  shows "fst (processTxn env tm tx w) = Continue"
proof -
  obtain pre k0 post where ks: "concat (keySegments ak) = pre @ k0 # post"
    "\<forall>k'\<in>set pre. \<not> skipListed k'" "skipListed k0"
    using scan_skip_found[OF assms(2,3)] by blast
  have "skipTx (scanKeys env (concat (keySegments ak)) scanStart)"
    unfolding ks(1) by (simp add: scanKeys_skip[OF ks(2,3)])
  then show ?thesis by (simp add: processTxn_some[OF assms(1)])
qed

lemma scan_no_skip_result:
  assumes "\<forall>k\<in>set ks. \<not> skipListed k"
  shows "skipTx (scanKeys env ks scanStart) = False"
    and "accountsOfInterestSet (scanKeys env ks scanStart) = firstSeen (map toBase58 (filter (ofInterest env) ks))"
  by (simp_all add: scanKeys_no_skip[OF assms] scanStart_def foldl_setAdd)

lemma processTxn_no_skip:
  assumes "accountKeysOf env tx w = Some ak" "\<forall>k\<in>set (concat (keySegments ak)). \<not> skipListed k"
  shows "fst (processTxn env tm tx w) =
     (if filter (ofInterest env) (concat (keySegments ak)) = [] then Continue
      else Yield \<lparr>txn = tx,
                  accountsOfInterest = firstSeen (map toBase58 (filter (ofInterest env) (concat (keySegments ak)))),
                  timings = \<lparr>mempoolEnd = mempoolEnd tm,
                             preSimEnd = now env (clockReads w),
                             simEnd = 0, postSimEnd = 0, calcArbEnd = 0,
                             buildBundleEnd = 0, bundleSent = 0\<rparr>\<rparr>)"
proof -
  have "firstSeen xs = [] \<longleftrightarrow> xs = []" for xs :: "string list"
    by (cases xs) simp_all
  then show ?thesis
    by (simp add: processTxn_some[OF assms(1)] scan_no_skip_result[OF assms(2)] Let_def)
qed

lemma isYield_any: "isYield (fst (processTxn env tm tx w)) = isYield (fst (processTxn env tm' tx w'))"
proof (cases "accountKeysOf env tx w")
  case None
  then have "accountKeysOf env tx w' = None" using accountKeysOf_any[of env tx w w'] by simp
  with None show ?thesis by (simp add: processTxn_null)
next
  case (Some ak)
  then have "accountKeysOf env tx w' = Some ak" using accountKeysOf_any[of env tx w w'] by simp
  with Some show ?thesis by (simp add: processTxn_some Let_def)
qed

lemma passes_any: "isYield (fst (processTxn env tm tx w)) = passes env tx"
  unfolding passes_def by (rule isYield_any)

lemma processTxn_yield:
  assumes "fst (processTxn env tm tx w) = Yield f"
  shows "\<exists>ak. accountKeysOf env tx w = Some ak \<and>
           (\<forall>k\<in>set (concat (keySegments ak)). \<not> skipListed k) \<and>
           filter (ofInterest env) (concat (keySegments ak)) \<noteq> [] \<and>
           f = \<lparr>txn = tx,
                accountsOfInterest = firstSeen (map toBase58 (filter (ofInterest env) (concat (keySegments ak)))),
                timings = \<lparr>mempoolEnd = mempoolEnd tm,
                           preSimEnd = now env (clockReads w),
                           simEnd = 0, postSimEnd = 0, calcArbEnd = 0,
                           buildBundleEnd = 0, bundleSent = 0\<rparr>\<rparr>"
proof (cases "accountKeysOf env tx w")
  case None
  with assms show ?thesis by (simp add: processTxn_null)
next
  case (Some ak)
  show ?thesis
  proof (cases "\<exists>k\<in>set (concat (keySegments ak)). skipListed k")
    case True
    then obtain k where "k \<in> set (concat (keySegments ak))" "skipListed k" by blast
    from processTxn_skip[OF Some this] assms show ?thesis by simp
  next
    case False
    then have ns: "\<forall>k\<in>set (concat (keySegments ak)). \<not> skipListed k" by blast
    from processTxn_no_skip[OF Some ns, of tm] assms
    have "filter (ofInterest env) (concat (keySegments ak)) \<noteq> [] \<and>
          f = \<lparr>txn = tx,
                accountsOfInterest = firstSeen (map toBase58 (filter (ofInterest env) (concat (keySegments ak)))),
                timings = \<lparr>mempoolEnd = mempoolEnd tm,
                           preSimEnd = now env (clockReads w),
                           simEnd = 0, postSimEnd = 0, calcArbEnd = 0,
                           buildBundleEnd = 0, bundleSent = 0\<rparr>\<rparr>"
      by (auto split: if_splits)
    with Some ns show ?thesis by blast
  qed
qed

lemma processTxn_yield_fields:
  assumes "fst (processTxn env tm tx w) = Yield f"
  shows "txn f = tx" and "mempoolEnd (timings f) = mempoolEnd tm"
    and "preSimEnd (timings f) = now env (clockReads w)"
    and "simEnd (timings f) = 0" and "postSimEnd (timings f) = 0"
    and "calcArbEnd (timings f) = 0" and "buildBundleEnd (timings f) = 0"
    and "bundleSent (timings f) = 0"
  using processTxn_yield[OF assms] by auto

lemma single_emitted:
  "emitted (preSimulationFilter env [\<lparr>txns = [tx], mempoolTimings = tm\<rparr>] w) =
     (case fst (processTxn env tm tx w) of Yield f \<Rightarrow> [f] | Continue \<Rightarrow> [] | Throw e \<Rightarrow> [])"
proof -
  obtain st w' where p: "processTxn env tm tx w = (st, w')" by (cases "processTxn env tm tx w")
  show ?thesis by (cases st) (simp_all add: preSimulationFilter_def p Let_def)
qed

lemma passes_iff:
  "passes env tx \<longleftrightarrow>
     (\<exists>ak. accountKeysOf env tx w = Some ak \<and>
        (\<forall>k\<in>set (concat (keySegments ak)). \<not> skipListed k) \<and>
        (\<exists>k\<in>set (concat (keySegments ak)). ofInterest env k))"
proof
  assume "passes env tx"
  then have "isYield (fst (processTxn env (mkTimings 0) tx w))" by (simp add: passes_any)
  then obtain f where "fst (processTxn env (mkTimings 0) tx w) = Yield f"
    by (cases "fst (processTxn env (mkTimings 0) tx w)") simp_all
  from processTxn_yield[OF this] show "\<exists>ak. accountKeysOf env tx w = Some ak \<and>
        (\<forall>k\<in>set (concat (keySegments ak)). \<not> skipListed k) \<and>
        (\<exists>k\<in>set (concat (keySegments ak)). ofInterest env k)"
    by (auto simp: filter_empty_conv)
next
  assume "\<exists>ak. accountKeysOf env tx w = Some ak \<and>
        (\<forall>k\<in>set (concat (keySegments ak)). \<not> skipListed k) \<and>
        (\<exists>k\<in>set (concat (keySegments ak)). ofInterest env k)"
  then obtain ak where ak: "accountKeysOf env tx w = Some ak"
    "\<forall>k\<in>set (concat (keySegments ak)). \<not> skipListed k"
    "\<exists>k\<in>set (concat (keySegments ak)). ofInterest env k" by blast
  from ak(3) have "filter (ofInterest env) (concat (keySegments ak)) \<noteq> []"
    by (simp add: filter_empty_conv)
  with processTxn_no_skip[OF ak(1,2), of "mkTimings 0"]
  have "isYield (fst (processTxn env (mkTimings 0) tx w))" by simp
  then show "passes env tx" by (simp add: passes_any)
qed

lemma libGetAccountKeys_no_lookups:
  "addressTableLookups m = [] \<Longrightarrow>
   libGetAccountKeys m luts = Inr \<lparr>keySegments = [staticAccountKeys m, [], []]\<rparr>"
  by (simp add: libGetAccountKeys_def)

lemma takeWhile_short:
  "x \<in> set xs \<Longrightarrow> \<not> P x \<Longrightarrow> length (takeWhile P xs) < length xs"
  by (induction xs) auto

lemma unresolved_lookup_not_skipped:
  assumes "l \<in> set (addressTableLookups (message tx))" and "\<not> resolved env l"
  shows "keyListCalls (snd (processTxn env tm tx w)) = keyListCalls w @ [tablesFor env tx w]"
    and "length (tablesFor env tx w) < length (addressTableLookups (message tx))"
proof -
  show "keyListCalls (snd (processTxn env tm tx w)) = keyListCalls w @ [tablesFor env tx w]"
    by (rule processTxn_keyListCalls)
  from assms have "length (takeWhile (resolved env) (addressTableLookups (message tx)))
      < length (addressTableLookups (message tx))"
    by (rule takeWhile_short)
  then show "length (tablesFor env tx w) < length (addressTableLookups (message tx))"
    by (simp add: tablesFor_def resolveLookups_tables)
qed

section \<open>Runs of the generator\<close>

lemma forTxns_subseq: "subseq (map txn (emitted (forTxns env tm txs w))) txs"
proof (induction txs arbitrary: w)
  case Nil
  then show ?case by simp
next
  case (Cons tx rest)
  obtain st w' where p: "processTxn env tm tx w = (st, w')" by (cases "processTxn env tm tx w")
  show ?case
  proof (cases st)
    case Continue
    with p Cons[of w'] show ?thesis by (simp add: list_emb_Cons)
  next
    case (Yield f)
    with p have "txn f = tx" using processTxn_yield_fields(1)[of env tm tx w f] by simp
    with p Yield Cons[of w'] show ?thesis by (simp add: Let_def)
  next
    case (Throw e)
    with p show ?thesis by simp
  qed
qed

lemma forTxns_filter:
  "thrown (forTxns env tm txs w) = None \<Longrightarrow>
   map txn (emitted (forTxns env tm txs w)) = filter (passes env) txs"
proof (induction txs arbitrary: w)
  case Nil
  then show ?case by simp
next
  case (Cons tx rest)
  obtain st w' where p: "processTxn env tm tx w = (st, w')" by (cases "processTxn env tm tx w")
  have pa: "passes env tx = isYield st" using passes_any[of env tm tx w] p by simp
  show ?case
  proof (cases st)
    case Continue
    with p pa Cons.prems Cons.IH[of w'] show ?thesis by simp
  next
    case (Yield f)
    with p have "txn f = tx" using processTxn_yield_fields(1)[of env tm tx w f] by simp
    with p pa Yield Cons.prems Cons.IH[of w'] show ?thesis by (simp add: Let_def)
  next
    case (Throw e)
    with p Cons.prems show ?thesis by simp
  qed
qed

lemma forTxns_all_pass:
  "\<forall>tx\<in>set txs. passes env tx \<Longrightarrow>
   thrown (forTxns env tm txs w) = None \<and> map txn (emitted (forTxns env tm txs w)) = txs"
proof (induction txs arbitrary: w)
  case Nil
  then show ?case by simp
next
  case (Cons tx rest)
  obtain st w' where p: "processTxn env tm tx w = (st, w')" by (cases "processTxn env tm tx w")
  have "isYield st" using passes_any[of env tm tx w] p Cons.prems by simp
  then obtain f where st: "st = Yield f" by (cases st) simp_all
  with p have "txn f = tx" using processTxn_yield_fields(1)[of env tm tx w f] by simp
  with p st Cons.prems Cons.IH[of w'] show ?case by (simp add: Let_def)
qed

lemma forTxns_clock:
  "clockReads (world (forTxns env tm txs w)) = clockReads w + length (emitted (forTxns env tm txs w))"
proof (induction txs arbitrary: w)
  case Nil
  then show ?case by simp
next
  case (Cons tx rest)
  obtain st w' where p: "processTxn env tm tx w = (st, w')" by (cases "processTxn env tm tx w")
  have c: "clockReads w' = (if isYield st then Suc (clockReads w) else clockReads w)"
    using processTxn_clock[of env tm tx w] p by simp
  show ?case
  proof (cases st)
    case Continue
    with p c Cons[of w'] show ?thesis by simp
  next
    case (Yield f)
    with p c Cons[of w'] show ?thesis by (simp add: Let_def)
  next
    case (Throw e)
    with p c show ?thesis by simp
  qed
qed

lemma forTxns_nth:
  "i < length (emitted (forTxns env tm txs w)) \<Longrightarrow>
   (\<exists>tx\<in>set txs. \<exists>w'. clockReads w' = clockReads w + i \<and>
      fst (processTxn env tm tx w') = Yield (emitted (forTxns env tm txs w) ! i))"
proof (induction txs arbitrary: w i)
  case Nil
  then show ?case by simp
next
  case (Cons tx rest)
  obtain st w' where p: "processTxn env tm tx w = (st, w')" by (cases "processTxn env tm tx w")
  have c: "clockReads w' = (if isYield st then Suc (clockReads w) else clockReads w)"
    using processTxn_clock[of env tm tx w] p by simp
  show ?case
  proof (cases st)
    case Continue
    with p c Cons.prems Cons.IH[of i w'] show ?thesis by auto
  next
    case (Yield f)
    show ?thesis
    proof (cases i)
      case 0
      have "fst (processTxn env tm tx w) = Yield f" using p Yield by simp
      with 0 p Yield show ?thesis by (auto simp: Let_def intro!: exI[of _ w])
    next
      case (Suc j)
      with p Yield Cons.prems have "j < length (emitted (forTxns env tm rest w'))"
        by (simp add: Let_def)
      from Cons.IH[OF this] obtain tx' w'' where
        "tx' \<in> set rest" "clockReads w'' = clockReads w' + j"
        "fst (processTxn env tm tx' w'') = Yield (emitted (forTxns env tm rest w') ! j)"
        by blast
      with Suc p Yield c show ?thesis by (auto simp: Let_def intro!: exI[of _ w''])
    qed
  next
    case (Throw e)
    with p Cons.prems show ?thesis by simp
  qed
qed

lemma forUpdates_subseq:
  "subseq (map txn (emitted (forUpdates env us w))) (concat (map txns us))"
proof (induction us arbitrary: w)
  case Nil
  then show ?case by simp
next
  case (Cons u rest)
  let ?r = "forTxns env (mempoolTimings u) (txns u) w"
  have a: "subseq (map txn (emitted ?r)) (txns u)" by (rule forTxns_subseq)
  show ?case
  proof (cases "thrown ?r")
    case None
    with a Cons[of "world ?r"] show ?thesis
      by (simp add: Let_def list_emb_append_mono)
  next
    case (Some e)
    with a show ?thesis by (simp add: Let_def list_emb_prefix)
  qed
qed

lemma forUpdates_filter:
  "thrown (forUpdates env us w) = None \<Longrightarrow>
   map txn (emitted (forUpdates env us w)) = filter (passes env) (concat (map txns us))"
proof (induction us arbitrary: w)
  case Nil
  then show ?case by simp
next
  case (Cons u rest)
  let ?r = "forTxns env (mempoolTimings u) (txns u) w"
  show ?case
  proof (cases "thrown ?r")
    case None
    with Cons.prems have "thrown (forUpdates env rest (world ?r)) = None" by (simp add: Let_def)
    from Cons.IH[OF this] None forTxns_filter[OF None] show ?thesis by (simp add: Let_def)
  next
    case (Some e)
    with Cons.prems show ?thesis by (simp add: Let_def)
  qed
qed

lemma forUpdates_nth:
  "i < length (emitted (forUpdates env us w)) \<Longrightarrow>
   (\<exists>u\<in>set us. \<exists>tx\<in>set (txns u). \<exists>w'. clockReads w' = clockReads w + i \<and>
      fst (processTxn env (mempoolTimings u) tx w') = Yield (emitted (forUpdates env us w) ! i))"
proof (induction us arbitrary: w i)
  case Nil
  then show ?case by simp
next
  case (Cons u rest)
  let ?r = "forTxns env (mempoolTimings u) (txns u) w"
  let ?n = "length (emitted ?r)"
  show ?case
  proof (cases "i < ?n")
    case True
    have e: "emitted (forUpdates env (u # rest) w) ! i = emitted ?r ! i"
      using True by (simp add: Let_def nth_append split: option.splits)
    from forTxns_nth[OF True] show ?thesis unfolding e by auto
  next
    case False
    with Cons.prems have None: "thrown ?r = None"
      by (cases "thrown ?r") (simp_all add: Let_def)
    let ?r' = "forUpdates env rest (world ?r)"
    have em: "emitted (forUpdates env (u # rest) w) = emitted ?r @ emitted ?r'"
      using None by (simp add: Let_def)
    have lt: "i - ?n < length (emitted ?r')" using Cons.prems False unfolding em by simp
    have e: "emitted (forUpdates env (u # rest) w) ! i = emitted ?r' ! (i - ?n)"
      unfolding em using False by (simp add: nth_append)
    have c: "clockReads (world ?r) + (i - ?n) = clockReads w + i"
      using False by (simp add: forTxns_clock)
    from Cons.IH[OF lt] show ?thesis unfolding e c by auto
  qed
qed

lemma forUpdates_mem:
  assumes "f \<in> set (emitted (forUpdates env us w))"
  shows "\<exists>u\<in>set us. \<exists>tx\<in>set (txns u). \<exists>w'. fst (processTxn env (mempoolTimings u) tx w') = Yield f"
proof -
  from assms obtain i where "i < length (emitted (forUpdates env us w))"
    "emitted (forUpdates env us w) ! i = f" by (auto simp: in_set_conv_nth)
  with forUpdates_nth[of i env us w] show ?thesis by metis
qed

lemma null_key_list_ends_run:
  assumes "accountKeysOf env tx w = None"
  shows "forTxns env tm (tx # rest) w =
           \<lparr>emitted = [], thrown = Some TypeError, world = snd (processTxn env tm tx w)\<rparr>"
    and "preSimulationFilter env (\<lparr>txns = tx # rest, mempoolTimings = tm\<rparr> # us) w =
           \<lparr>emitted = [], thrown = Some TypeError, world = snd (processTxn env tm tx w)\<rparr>"
proof -
  obtain st w' where p: "processTxn env tm tx w = (st, w')" by (cases "processTxn env tm tx w")
  with processTxn_null[OF assms, of tm] have st: "st = Throw TypeError" by simp
  show a: "forTxns env tm (tx # rest) w =
           \<lparr>emitted = [], thrown = Some TypeError, world = snd (processTxn env tm tx w)\<rparr>"
    by (simp add: p st)
  show "preSimulationFilter env (\<lparr>txns = tx # rest, mempoolTimings = tm\<rparr> # us) w =
           \<lparr>emitted = [], thrown = Some TypeError, world = snd (processTxn env tm tx w)\<rparr>"
    by (simp add: preSimulationFilter_def p st)
qed

section \<open>Histories of the relay\<close>

lemma relayRun_append: "relayRun (es @ es') st = relayRun es' (relayRun es st)"
proof (induction es arbitrary: st)
  case Nil
  then show ?case by simp
next
  case (Cons e es)
  obtain r out where st: "st = (r, out)" by (cases st)
  show ?case
    by (cases e) (simp_all add: st Cons split: prod.splits option.splits)
qed

lemma relayPush_capacity: "capacity (relayPush r b) = capacity r"
  by (simp add: relayPush_def split: list.splits)

lemma relayPull_capacity: "capacity (snd (relayPull r)) = capacity r"
  by (simp add: relayPull_def split: list.splits)

lemma relayPush_bound:
  "0 < capacity r \<Longrightarrow> length (buffer r) \<le> capacity r \<Longrightarrow>
   length (buffer (relayPush r b)) \<le> capacity r"
  by (auto simp: relayPush_def split: list.splits)

lemma relayPull_bound:
  "length (buffer r) \<le> capacity r \<Longrightarrow> length (buffer (snd (relayPull r))) \<le> capacity r"
  by (auto simp: relayPull_def split: list.splits)

lemma relayRun_bound:
  "0 < capacity r \<Longrightarrow> length (buffer r) \<le> capacity r \<Longrightarrow>
   capacity (fst (relayRun es (r, out))) = capacity r \<and>
   length (buffer (fst (relayRun es (r, out)))) \<le> capacity r"
proof (induction es arbitrary: r out)
  case Nil
  then show ?case by simp
next
  case (Cons e es)
  show ?case
  proof (cases e)
    case (Arrive b)
    have "0 < capacity (relayPush r b)" "length (buffer (relayPush r b)) \<le> capacity (relayPush r b)"
      using Cons.prems by (simp_all add: relayPush_capacity relayPush_bound)
    from Cons.IH[OF this] show ?thesis by (simp add: Arrive relayPush_capacity)
  next
    case Consume
    obtain x r' where p: "relayPull r = (x, r')" by (cases "relayPull r")
    have "0 < capacity r'" "length (buffer r') \<le> capacity r'" and c: "capacity r' = capacity r"
      using Cons.prems relayPull_capacity[of r] relayPull_bound[of r] p by simp_all
    from Cons.IH[OF this(1,2)] c p show ?thesis by (cases x) (simp_all add: Consume)
  qed
qed

lemma relayRun_arrivals:
  "relayRun (map Arrive bs) (r, out) = (foldl relayPush r bs, out)"
  by (induction bs arbitrary: r) simp_all

lemma foldl_relayPush:
  "0 < capacity r \<Longrightarrow> length (buffer r) \<le> capacity r \<Longrightarrow>
   foldl relayPush r bs =
     r\<lparr>buffer := drop (length (buffer r @ bs) - capacity r) (buffer r @ bs),
       discarded := discarded r @ take (length (buffer r @ bs) - capacity r) (buffer r @ bs)\<rparr>"
proof (induction bs arbitrary: r)
  case Nil
  then show ?case by simp
next
  case (Cons b bs)
  let ?r = "relayPush r b"
  have pre: "0 < capacity ?r" "length (buffer ?r) \<le> capacity ?r"
    using Cons.prems by (simp_all add: relayPush_capacity relayPush_bound)
  show ?case
  proof (cases "capacity r \<le> length (buffer r)")
    case True
    with Cons.prems have len: "length (buffer r) = capacity r" by simp
    with Cons.prems obtain oldest newer where br: "buffer r = oldest # newer"
      by (cases "buffer r") auto
    have rp: "?r = r\<lparr>buffer := newer @ [b], discarded := discarded r @ [oldest]\<rparr>"
      using True br by (simp add: relayPush_def)
    have n: "length newer = capacity r - 1" using len br by simp
    have l1: "length ((newer @ [b]) @ bs) - capacity r = length bs" using n Cons.prems(1) by simp
    have l2: "length (buffer r @ b # bs) - capacity r = Suc (length bs)" using len by simp
    show ?thesis
      unfolding foldl_Cons Cons.IH[OF pre] l2
      unfolding rp using l1 br by (simp add: relayPush_capacity)
  next
    case False
    then have rp: "?r = r\<lparr>buffer := buffer r @ [b]\<rparr>" by (simp add: relayPush_def)
    show ?thesis
      unfolding foldl_Cons Cons.IH[OF pre]
      unfolding rp by simp
  qed
qed

lemma relayRun_drain:
  "relayRun (replicate n Consume) (r, out) =
     (r\<lparr>buffer := drop n (buffer r)\<rparr>, out @ take n (buffer r))"
proof (induction n arbitrary: r out)
  case 0
  then show ?case by simp
next
  case (Suc n)
  show ?case
  proof (cases "buffer r")
    case Nil
    then show ?thesis using Suc[of r out] by (simp add: relayPull_def)
  next
    case (Cons b newer)
    then show ?thesis using Suc[of "r\<lparr>buffer := newer\<rparr>" "out @ [b]"] by (simp add: relayPull_def)
  qed
qed

section \<open>Evaluating the examples\<close>

lemmas ex_defs = exEnv_def tableT1_def mkTxn_def mkLookup_def mkTimings_def exUpdate_def
  lateUpdate_def txPlain_def txLast_def txViaTable_def txUnresolved_def txMalformed_def
  txSkipped_def txBoring_def txFirstMissing_def world0_def

lemmas run_defs = preSimulationFilter_def processTxn_def buildAccountKeys_def
  libGetAccountKeys_def scanStart_def setAdd_def SKIP_TX_IF_CONTAINS_ADDRESS_def Let_def

section \<open>The claims\<close>

text \<open>
  Claim C1, at a failing input. The second transaction refers to the tables \<open>T1\<close> and
  \<open>T9\<close>, and the provider has no \<open>T9\<close>. The loop over the references stops there, but
  the transaction is not skipped: the key list is requested with the one table that was
  resolved, the library call fails, and the generator ends with a \<open>TypeError\<close>. The third
  transaction, which would pass, is never emitted.
\<close>

theorem C1_unresolved_lookup_run:
  "map txn (emitted (preSimulationFilter exEnv [exUpdate [txPlain, txUnresolved, txLast]] world0)) = [txPlain]
   \<and> thrown (preSimulationFilter exEnv [exUpdate [txPlain, txUnresolved, txLast]] world0) = Some TypeError
   \<and> resolverCalls (world (preSimulationFilter exEnv [exUpdate [txPlain, txUnresolved, txLast]] world0)) = [PublicKey ''T1'', PublicKey ''T9'']
   \<and> keyListCalls (world (preSimulationFilter exEnv [exUpdate [txPlain, txUnresolved, txLast]] world0)) = [[], [tableT1]]"
  by (simp add: ex_defs run_defs)

text \<open>
  Claim C2, at a failing input. The first transaction reads index 7 of a table with two
  addresses, so the library call throws. The warning is logged, and then the scan reads
  the key list that was never assigned: the generator ends with a \<open>TypeError\<close>, and
  neither the next transaction nor the next update is processed.
\<close>

theorem C2_malformed_txn_run:
  "emitted (preSimulationFilter exEnv [exUpdate [txMalformed, txLast], exUpdate [txPlain]] world0) = []
   \<and> thrown (preSimulationFilter exEnv [exUpdate [txMalformed, txLast], exUpdate [txPlain]] world0) = Some TypeError
   \<and> logged (world (preSimulationFilter exEnv [exUpdate [txMalformed, txLast], exUpdate [txPlain]] world0))
       = [Warn ''Failed to find address for index'' ''address not in lookup table'']"
  by (simp add: ex_defs run_defs)

text \<open>
  Claim C3. When the key list built for a transaction holds a skip-listed address, the
  loop body goes on to the next transaction and nothing is emitted, whatever the other
  keys are; the scan runs on the keys up to and including the first skip-listed one and
  on no key after it.
\<close>

theorem C3_skip_list_veto:
  assumes "accountKeysOf env tx w = Some ak"
    and "k \<in> set (concat (keySegments ak))" and "skipListed k"
  shows "fst (processTxn env tm tx w) = Continue
    \<and> emitted (preSimulationFilter env [\<lparr>txns = [tx], mempoolTimings = tm\<rparr>] w) = []
    \<and> (\<exists>pre k0 post. concat (keySegments ak) = pre @ k0 # post
          \<and> (\<forall>k'\<in>set pre. \<not> skipListed k') \<and> skipListed k0
          \<and> examined (scanKeys env (concat (keySegments ak)) scanStart) = map toBase58 (pre @ [k0]))"
proof -
  have c: "fst (processTxn env tm tx w) = Continue" by (rule processTxn_skip[OF assms])
  obtain pre k0 post where ks: "concat (keySegments ak) = pre @ k0 # post"
    "\<forall>k'\<in>set pre. \<not> skipListed k'" "skipListed k0"
    using scan_skip_found[OF assms(2,3)] by blast
  have "examined (scanKeys env (concat (keySegments ak)) scanStart) = map toBase58 (pre @ [k0])"
    unfolding ks(1) by (simp add: scanKeys_skip[OF ks(2,3)] scanStart_def)
  with ks c show ?thesis by (auto simp: single_emitted)
qed

theorem C3_skip_list_veto_witness:
  "accountKeysOf exEnv txSkipped world0 = Some keysSkipped
   \<and> skipListed orcaKey \<and> ofInterest exEnv (PublicKey ''B'') \<and> ofInterest exEnv (PublicKey ''C'')
   \<and> fst (processTxn exEnv (mkTimings 900) txSkipped world0) = Continue
   \<and> emitted (preSimulationFilter exEnv [\<lparr>txns = [txSkipped], mempoolTimings = mkTimings 900\<rparr>] world0) = []
   \<and> examined (scanKeys exEnv (concat (keySegments keysSkipped)) scanStart) = [''B'', toBase58 orcaKey]"
proof -
  have h1: "accountKeysOf exEnv txSkipped world0 = Some keysSkipped"
    by (simp add: accountKeysOf_def keysSkipped_def orcaKey_def ex_defs run_defs)
  have h2: "orcaKey \<in> set (concat (keySegments keysSkipped))" by (simp add: keysSkipped_def)
  have h3: "skipListed orcaKey" by (simp add: skipListed_def orcaKey_def SKIP_TX_IF_CONTAINS_ADDRESS_def)
  have h4: "examined (scanKeys exEnv (concat (keySegments keysSkipped)) scanStart) = [''B'', toBase58 orcaKey]"
    by (simp add: keysSkipped_def orcaKey_def ex_defs run_defs)
  from C3_skip_list_veto[OF h1 h2 h3, of "mkTimings 900"] h1 h3 h4 show ?thesis
    by (simp add: ofInterest_def exEnv_def)
qed

text \<open>
  Claim C4. When the key list built for a transaction holds no skip-listed address: if
  no key is of interest, nothing is emitted; otherwise exactly one record is emitted, for
  this transaction, and its accounts of interest are, as a set, the key strings of the
  list that are of interest, without duplicates and not empty.
\<close>

theorem C4_interest_matches:
  assumes "accountKeysOf env tx w = Some ak"
    and "\<forall>k\<in>set (concat (keySegments ak)). \<not> skipListed k"
  shows "((\<forall>k\<in>set (concat (keySegments ak)). \<not> ofInterest env k) \<longrightarrow>
            fst (processTxn env tm tx w) = Continue
          \<and> emitted (preSimulationFilter env [\<lparr>txns = [tx], mempoolTimings = tm\<rparr>] w) = [])
    \<and> ((\<exists>k\<in>set (concat (keySegments ak)). ofInterest env k) \<longrightarrow>
          (\<exists>f. fst (processTxn env tm tx w) = Yield f
             \<and> emitted (preSimulationFilter env [\<lparr>txns = [tx], mempoolTimings = tm\<rparr>] w) = [f]
             \<and> txn f = tx
             \<and> set (accountsOfInterest f) =
                 {a \<in> set (map toBase58 (concat (keySegments ak))). isTokenAccountOfInterest env a}
             \<and> distinct (accountsOfInterest f)
             \<and> accountsOfInterest f \<noteq> []))"
proof -
  let ?ks = "concat (keySegments ak)"
  let ?m = "firstSeen (map toBase58 (filter (ofInterest env) ?ks))"
  note p = processTxn_no_skip[OF assms, of tm]
  have none: "fst (processTxn env tm tx w) = Continue
      \<and> emitted (preSimulationFilter env [\<lparr>txns = [tx], mempoolTimings = tm\<rparr>] w) = []"
    if "\<forall>k\<in>set ?ks. \<not> ofInterest env k"
  proof -
    from that have "filter (ofInterest env) ?ks = []" by (simp add: filter_empty_conv)
    with p show ?thesis by (simp add: single_emitted)
  qed
  have some: "\<exists>f. fst (processTxn env tm tx w) = Yield f
             \<and> emitted (preSimulationFilter env [\<lparr>txns = [tx], mempoolTimings = tm\<rparr>] w) = [f]
             \<and> txn f = tx
             \<and> set (accountsOfInterest f) = {a \<in> set (map toBase58 ?ks). isTokenAccountOfInterest env a}
             \<and> distinct (accountsOfInterest f)
             \<and> accountsOfInterest f \<noteq> []"
    if "\<exists>k\<in>set ?ks. ofInterest env k"
  proof -
    from that have ne: "filter (ofInterest env) ?ks \<noteq> []" by (simp add: filter_empty_conv)
    have s: "set ?m = {a \<in> set (map toBase58 ?ks). isTokenAccountOfInterest env a}"
      by (auto simp: set_firstSeen ofInterest_def)
    have "firstSeen xs = [] \<longleftrightarrow> xs = []" for xs :: "string list"
      by (cases xs) simp_all
    with ne have n: "?m \<noteq> []" by simp
    from p ne s n show ?thesis
      by (simp add: single_emitted distinct_firstSeen)
  qed
  from none some show ?thesis by blast
qed

theorem C4_interest_matches_witness:
  "accountKeysOf exEnv txPlain world0 = Some keysPlain
   \<and> filter skipListed (concat (keySegments keysPlain)) = []
   \<and> ofInterest exEnv (PublicKey ''B'')
   \<and> emitted (preSimulationFilter exEnv [\<lparr>txns = [txPlain], mempoolTimings = mkTimings 900\<rparr>] world0)
       = [ftPlain 1000]
   \<and> set (accountsOfInterest (ftPlain 1000)) = {''B'', ''C''}
   \<and> accountKeysOf exEnv txBoring world0 = Some keysBoring
   \<and> filter skipListed (concat (keySegments keysBoring)) = []
   \<and> filter (ofInterest exEnv) (concat (keySegments keysBoring)) = []
   \<and> fst (processTxn exEnv (mkTimings 900) txBoring world0) = Continue"
proof -
  have a1: "accountKeysOf exEnv txPlain world0 = Some keysPlain"
    by (simp add: accountKeysOf_def keysPlain_def ex_defs run_defs)
  have a2: "\<forall>k\<in>set (concat (keySegments keysPlain)). \<not> skipListed k"
    by (simp add: keysPlain_def skipListed_def SKIP_TX_IF_CONTAINS_ADDRESS_def)
  have a3: "\<exists>k\<in>set (concat (keySegments keysPlain)). ofInterest exEnv k"
    by (simp add: keysPlain_def ofInterest_def exEnv_def)
  have e: "emitted (preSimulationFilter exEnv [\<lparr>txns = [txPlain], mempoolTimings = mkTimings 900\<rparr>] world0)
       = [ftPlain 1000]"
    by (simp add: ftPlain_def ex_defs run_defs)
  have b1: "accountKeysOf exEnv txBoring world0 = Some keysBoring"
    by (simp add: accountKeysOf_def keysBoring_def ex_defs run_defs)
  have b2: "\<forall>k\<in>set (concat (keySegments keysBoring)). \<not> skipListed k"
    by (simp add: keysBoring_def skipListed_def SKIP_TX_IF_CONTAINS_ADDRESS_def)
  have b3: "\<forall>k\<in>set (concat (keySegments keysBoring)). \<not> ofInterest exEnv k"
    by (simp add: keysBoring_def ofInterest_def exEnv_def)
  from C4_interest_matches[OF a1 a2, of "mkTimings 900"] a3 e
  have p: "set (accountsOfInterest (ftPlain 1000)) =
      {a \<in> set (map toBase58 (concat (keySegments keysPlain))). isTokenAccountOfInterest exEnv a}"
    by auto
  have "{a \<in> set (map toBase58 (concat (keySegments keysPlain))). isTokenAccountOfInterest exEnv a} = {''B'', ''C''}"
    by (auto simp: keysPlain_def exEnv_def)
  with p have p': "set (accountsOfInterest (ftPlain 1000)) = {''B'', ''C''}" by simp
  from C4_interest_matches[OF b1 b2, of "mkTimings 900"] b3
  have q: "fst (processTxn exEnv (mkTimings 900) txBoring world0) = Continue" by blast
  have a2': "filter skipListed (concat (keySegments keysPlain)) = []"
    using a2 by (simp add: filter_empty_conv)
  have b2': "filter skipListed (concat (keySegments keysBoring)) = []"
    using b2 by (simp add: filter_empty_conv)
  have b3': "filter (ofInterest exEnv) (concat (keySegments keysBoring)) = []"
    using b3 by (simp add: filter_empty_conv)
  have a3': "ofInterest exEnv (PublicKey ''B'')" by (simp add: ofInterest_def exEnv_def)
  from a1 a2' a3' e p' b1 b2' b3' q show ?thesis by simp
qed

text \<open>
  Claim C5. A relay of positive capacity \<open>N\<close> never retains more than \<open>N\<close> batches, whatever
  the history, and an arrival at a full buffer discards the oldest batch. When \<open>N + k\<close>
  batches arrive with no consumption in between, the \<open>k\<close> oldest are the ones discarded,
  and the \<open>N\<close> most recent are retained and then delivered to the consumer in their
  original order.
\<close>

theorem C5_bounded_relay:
  assumes "0 < N" and "length bs = N + k"
  shows "length (buffer (fst (dropBeyondHighWaterMark N es))) \<le> N
       \<and> (length (buffer (fst (dropBeyondHighWaterMark N es))) = N \<longrightarrow>
            buffer (fst (dropBeyondHighWaterMark N (es @ [Arrive b])))
              = tl (buffer (fst (dropBeyondHighWaterMark N es))) @ [b]
          \<and> discarded (fst (dropBeyondHighWaterMark N (es @ [Arrive b])))
              = discarded (fst (dropBeyondHighWaterMark N es)) @ [hd (buffer (fst (dropBeyondHighWaterMark N es)))])
       \<and> buffer (fst (dropBeyondHighWaterMark N (map Arrive bs))) = drop k bs
       \<and> discarded (fst (dropBeyondHighWaterMark N (map Arrive bs))) = take k bs
       \<and> snd (dropBeyondHighWaterMark N (map Arrive bs @ replicate N Consume)) = drop k bs"
proof -
  have a: "length (buffer (fst (dropBeyondHighWaterMark N es))) \<le> N"
    unfolding dropBeyondHighWaterMark_def
    using relayRun_bound[of "relayNew N" es "[]"] assms(1) by (simp add: relayNew_def)
  have f: "foldl relayPush (relayNew N) bs = \<lparr>capacity = N, buffer = drop k bs, discarded = take k bs\<rparr>"
    using foldl_relayPush[of "relayNew N" bs] assms by (simp add: relayNew_def)
  have b: "dropBeyondHighWaterMark N (map Arrive bs) = (\<lparr>capacity = N, buffer = drop k bs, discarded = take k bs\<rparr>, [])"
    unfolding dropBeyondHighWaterMark_def relayRun_arrivals f ..
  have c: "snd (dropBeyondHighWaterMark N (map Arrive bs @ replicate N Consume)) = drop k bs"
    using b assms(2) unfolding dropBeyondHighWaterMark_def relayRun_append
    by (simp add: relayRun_drain)
  have d: "buffer (fst (dropBeyondHighWaterMark N (es @ [Arrive b])))
              = tl (buffer (fst (dropBeyondHighWaterMark N es))) @ [b]
          \<and> discarded (fst (dropBeyondHighWaterMark N (es @ [Arrive b])))
              = discarded (fst (dropBeyondHighWaterMark N es)) @ [hd (buffer (fst (dropBeyondHighWaterMark N es)))]"
    if full: "length (buffer (fst (dropBeyondHighWaterMark N es))) = N"
  proof -
    obtain r out where ro: "relayRun es (relayNew N, []) = (r, out)"
      by (cases "relayRun es (relayNew N, [])")
    have cap: "capacity r = N"
      using relayRun_bound[of "relayNew N" es "[]"] assms(1) ro by (simp add: relayNew_def)
    have len: "length (buffer r) = N" using full ro by (simp add: dropBeyondHighWaterMark_def)
    with assms(1) obtain oldest newer where br: "buffer r = oldest # newer"
      by (cases "buffer r") auto
    show ?thesis
      unfolding dropBeyondHighWaterMark_def relayRun_append ro
      using len br by (auto simp: relayPush_def cap)
  qed
  from a b c d show ?thesis by simp
qed

theorem C5_bounded_relay_witness:
  "(0::nat) < 2 \<and> length [10, 20, 30 :: nat] = 2 + 1
   \<and> length (buffer (fst (dropBeyondHighWaterMark 2
        [Arrive (10::nat), Arrive 20, Consume, Arrive 30, Arrive 40, Arrive 50]))) \<le> 2
   \<and> length (buffer (fst (dropBeyondHighWaterMark 2
        [Arrive (10::nat), Arrive 20, Consume, Arrive 30, Arrive 40, Arrive 50]))) = 2
   \<and> buffer (fst (dropBeyondHighWaterMark 2
        ([Arrive (10::nat), Arrive 20, Consume, Arrive 30, Arrive 40, Arrive 50] @ [Arrive 60]))) = [50, 60]
   \<and> discarded (fst (dropBeyondHighWaterMark 2
        ([Arrive (10::nat), Arrive 20, Consume, Arrive 30, Arrive 40, Arrive 50] @ [Arrive 60]))) = [20, 30, 40]
   \<and> buffer (fst (dropBeyondHighWaterMark 2 (map Arrive [10, 20, 30 :: nat]))) = [20, 30]
   \<and> discarded (fst (dropBeyondHighWaterMark 2 (map Arrive [10, 20, 30 :: nat]))) = [10]
   \<and> snd (dropBeyondHighWaterMark 2 (map Arrive [10, 20, 30 :: nat] @ replicate 2 Consume)) = [20, 30]"
proof -
  have h1: "(0::nat) < 2" by simp
  have h2: "length [10, 20, 30 :: nat] = 2 + 1" by simp
  have h3: "length (buffer (fst (dropBeyondHighWaterMark 2
        [Arrive (10::nat), Arrive 20, Consume, Arrive 30, Arrive 40, Arrive 50]))) = 2"
    by (simp add: dropBeyondHighWaterMark_def relayNew_def relayPush_def relayPull_def)
  from C5_bounded_relay[OF h1 h2,
      of "[Arrive (10::nat), Arrive 20, Consume, Arrive 30, Arrive 40, Arrive 50]" 60] h3
  show ?thesis
    by (simp add: dropBeyondHighWaterMark_def relayNew_def relayPush_def relayPull_def)
qed

text \<open>
  Claim C6 as stated fails: the filter never compares the two timestamps. An update
  stamped 2000 and emitted when the clock reads 1000 gives a record whose \<open>preSimEnd\<close> is
  below its \<open>mempoolEnd\<close>.
\<close>

theorem C6_late_update_counterexample:
  "\<not> (\<forall>f\<in>set (emitted (preSimulationFilter exEnv [lateUpdate] world0)).
        mempoolEnd (timings f) \<le> preSimEnd (timings f))"
  by (simp add: ex_defs run_defs)

text \<open>
  Claim C6, amended. The record emitted at position \<open>i\<close> of a run belongs to a transaction
  of one of the updates and has that update's \<open>mempoolEnd\<close>; its \<open>preSimEnd\<close> is the clock
  reading taken for it, the \<open>i\<close>-th of the run; the five later fields are zero. Its
  \<open>preSimEnd\<close> is at least its \<open>mempoolEnd\<close> whenever that clock reading is at least the
  update's \<open>mempoolEnd\<close>.
\<close>

theorem C6_timings:
  assumes "i < length (emitted (preSimulationFilter env us w))"
  shows "(\<exists>u\<in>set us. txn (emitted (preSimulationFilter env us w) ! i) \<in> set (txns u)
            \<and> mempoolEnd (timings (emitted (preSimulationFilter env us w) ! i)) = mempoolEnd (mempoolTimings u))
    \<and> preSimEnd (timings (emitted (preSimulationFilter env us w) ! i)) = now env (clockReads w + i)
    \<and> simEnd (timings (emitted (preSimulationFilter env us w) ! i)) = 0
    \<and> postSimEnd (timings (emitted (preSimulationFilter env us w) ! i)) = 0
    \<and> calcArbEnd (timings (emitted (preSimulationFilter env us w) ! i)) = 0
    \<and> buildBundleEnd (timings (emitted (preSimulationFilter env us w) ! i)) = 0
    \<and> bundleSent (timings (emitted (preSimulationFilter env us w) ! i)) = 0
    \<and> (mempoolEnd (timings (emitted (preSimulationFilter env us w) ! i)) \<le> now env (clockReads w + i) \<longrightarrow>
          mempoolEnd (timings (emitted (preSimulationFilter env us w) ! i))
            \<le> preSimEnd (timings (emitted (preSimulationFilter env us w) ! i)))"
proof -
  let ?f = "emitted (preSimulationFilter env us w) ! i"
  from assms obtain u tx w' where o: "u \<in> set us" "tx \<in> set (txns u)"
    "clockReads w' = clockReads w + i"
    "fst (processTxn env (mempoolTimings u) tx w') = Yield ?f"
    unfolding preSimulationFilter_def using forUpdates_nth[of i env us w] by blast
  note y = processTxn_yield_fields[OF o(4)]
  have "txn ?f \<in> set (txns u)" using y(1) o(2) by simp
  moreover have "mempoolEnd (timings ?f) = mempoolEnd (mempoolTimings u)" by (rule y(2))
  moreover have "preSimEnd (timings ?f) = now env (clockReads w + i)" using y(3) o(3) by simp
  ultimately show ?thesis using o(1) y(4-8) by auto
qed

theorem C6_timings_witness:
  "(1::nat) < length (emitted (preSimulationFilter exEnv [exUpdate [txPlain, txBoring, txLast]] world0))
   \<and> txn (emitted (preSimulationFilter exEnv [exUpdate [txPlain, txBoring, txLast]] world0) ! 1) = txLast
   \<and> timings (emitted (preSimulationFilter exEnv [exUpdate [txPlain, txBoring, txLast]] world0) ! 1)
       = \<lparr>mempoolEnd = 900, preSimEnd = 1001, simEnd = 0, postSimEnd = 0, calcArbEnd = 0,
          buildBundleEnd = 0, bundleSent = 0\<rparr>
   \<and> mempoolEnd (timings (emitted (preSimulationFilter exEnv [exUpdate [txPlain, txBoring, txLast]] world0) ! 1))
       \<le> preSimEnd (timings (emitted (preSimulationFilter exEnv [exUpdate [txPlain, txBoring, txLast]] world0) ! 1))"
proof -
  let ?r = "preSimulationFilter exEnv [exUpdate [txPlain, txBoring, txLast]] world0"
  have l: "(1::nat) < length (emitted ?r)" by (simp add: ex_defs run_defs)
  have t: "txn (emitted ?r ! 1) = txLast" by (simp add: ex_defs run_defs)
  have v: "timings (emitted ?r ! 1)
       = \<lparr>mempoolEnd = 900, preSimEnd = 1001, simEnd = 0, postSimEnd = 0, calcArbEnd = 0,
          buildBundleEnd = 0, bundleSent = 0\<rparr>" by (simp add: ex_defs run_defs)
  have n: "now exEnv (clockReads world0 + 1) = 1001" by (simp add: exEnv_def world0_def)
  from C6_timings[OF l] have
    "mempoolEnd (timings (emitted ?r ! 1)) \<le> now exEnv (clockReads world0 + 1) \<longrightarrow>
     mempoolEnd (timings (emitted ?r ! 1)) \<le> preSimEnd (timings (emitted ?r ! 1))" by blast
  moreover have "mempoolEnd (timings (emitted ?r ! 1)) \<le> now exEnv (clockReads world0 + 1)"
    unfolding n v by simp
  ultimately have "mempoolEnd (timings (emitted ?r ! 1)) \<le> preSimEnd (timings (emitted ?r ! 1))" by blast
  with l t v show ?thesis by blast
qed

text \<open>
  Claim C7. The transactions of the emitted records, in the order of emission, form a
  subsequence of the transactions of the updates taken update by update and, within an
  update, in its own order. When the run does not throw they are exactly the passing
  transactions in that order, and for a single update in which every transaction passes
  they are the update's transactions in order.
\<close>

theorem C7_emission_order:
  "subseq (map txn (emitted (preSimulationFilter env us w))) (concat (map txns us))
   \<and> (thrown (preSimulationFilter env us w) = None \<longrightarrow>
        map txn (emitted (preSimulationFilter env us w)) = filter (passes env) (concat (map txns us)))
   \<and> ((\<forall>tx\<in>set (txns u). passes env tx) \<longrightarrow>
        map txn (emitted (preSimulationFilter env [u] w)) = txns u)"
proof -
  have a: "subseq (map txn (emitted (preSimulationFilter env us w))) (concat (map txns us))"
    unfolding preSimulationFilter_def by (rule forUpdates_subseq)
  have b: "map txn (emitted (preSimulationFilter env us w)) = filter (passes env) (concat (map txns us))"
    if "thrown (preSimulationFilter env us w) = None"
    using that unfolding preSimulationFilter_def by (rule forUpdates_filter)
  have c: "map txn (emitted (preSimulationFilter env [u] w)) = txns u"
    if "\<forall>tx\<in>set (txns u). passes env tx"
    using forTxns_all_pass[OF that, of "mempoolTimings u" w]
    by (simp add: preSimulationFilter_def Let_def)
  from a b c show ?thesis by blast
qed

theorem C7_emission_order_witness:
  "passes exEnv txLast \<and> passes exEnv txViaTable \<and> passes exEnv txPlain
   \<and> map txn (emitted (preSimulationFilter exEnv [exUpdate [txLast, txViaTable, txPlain]] world0))
       = [txLast, txViaTable, txPlain]
   \<and> thrown (preSimulationFilter exEnv [exUpdate [txPlain, txSkipped], exUpdate [txBoring, txLast]] world0) = None
   \<and> map txn (emitted (preSimulationFilter exEnv [exUpdate [txPlain, txSkipped], exUpdate [txBoring, txLast]] world0))
       = [txPlain, txLast]"
proof -
  have p: "passes exEnv txLast" "passes exEnv txViaTable" "passes exEnv txPlain"
    by (simp_all add: passes_def ex_defs run_defs)
  then have h: "\<forall>tx\<in>set (txns (exUpdate [txLast, txViaTable, txPlain])). passes exEnv tx"
    by (simp add: exUpdate_def)
  have t: "thrown (preSimulationFilter exEnv [exUpdate [txPlain, txSkipped], exUpdate [txBoring, txLast]] world0) = None"
    by (simp add: ex_defs run_defs)
  have q: "\<not> passes exEnv txSkipped" "\<not> passes exEnv txBoring"
    by (simp_all add: passes_def ex_defs run_defs)
  from C7_emission_order[of exEnv "[exUpdate [txPlain, txSkipped], exUpdate [txBoring, txLast]]" world0
      "exUpdate [txLast, txViaTable, txPlain]"] h t
  have "map txn (emitted (preSimulationFilter exEnv [exUpdate [txLast, txViaTable, txPlain]] world0))
          = txns (exUpdate [txLast, txViaTable, txPlain])"
    and "map txn (emitted (preSimulationFilter exEnv [exUpdate [txPlain, txSkipped], exUpdate [txBoring, txLast]] world0))
          = filter (passes exEnv) (concat (map txns [exUpdate [txPlain, txSkipped], exUpdate [txBoring, txLast]]))"
    by blast+
  with p q t show ?thesis by (simp add: exUpdate_def)
qed

text \<open>
  Claim C8 as stated fails: the provider is not asked for a reference that follows an
  unresolved one. Here the first reference, \<open>T9\<close>, is unresolved, and the second, \<open>T1\<close>,
  is never looked up.
\<close>

theorem C8_unresolved_first_counterexample:
  "resolverCalls (snd (processTxn exEnv (mkTimings 900) txFirstMissing world0))
     \<noteq> resolverCalls world0 @ map accountKey (addressTableLookups (message txFirstMissing))
   \<and> PublicKey ''T1'' \<in> set (map accountKey (addressTableLookups (message txFirstMissing)))
   \<and> PublicKey ''T1'' \<notin> set (resolverCalls (snd (processTxn exEnv (mkTimings 900) txFirstMissing world0)))"
  by (simp add: ex_defs run_defs)

text \<open>
  Claim C8, amended. For one transaction the provider is called once for each reference
  in the order of the reference list, up to and including the first reference it cannot
  resolve, and for no reference after that one. When it resolves every reference, it is
  called exactly once per reference, in order (a table referred to twice is looked up
  twice).
\<close>

theorem C8_resolver_calls:
  "resolverCalls (snd (processTxn env tm tx w)) =
     resolverCalls w @ map accountKey
       (takeWhile (resolved env) (addressTableLookups (message tx)) @
        take 1 (dropWhile (resolved env) (addressTableLookups (message tx))))
   \<and> ((\<forall>l\<in>set (addressTableLookups (message tx)). resolved env l) \<longrightarrow>
        resolverCalls (snd (processTxn env tm tx w)) =
          resolverCalls w @ map accountKey (addressTableLookups (message tx)))"
proof -
  have "takeWhile (resolved env) ls @ take 1 (dropWhile (resolved env) ls) = ls"
    if "\<forall>l\<in>set ls. resolved env l" for ls
    using that by (simp add: takeWhile_eq_all_conv[THEN iffD2] dropWhile_eq_Nil_conv[THEN iffD2])
  then show ?thesis by (simp add: processTxn_resolverCalls)
qed

theorem C8_resolver_calls_witness:
  "resolved exEnv (mkLookup ''T1'' [1] [0])
   \<and> resolverCalls (snd (processTxn exEnv (mkTimings 900) txViaTable world0)) = [PublicKey ''T1'']
   \<and> \<not> resolved exEnv (mkLookup ''T9'' [0] [])
   \<and> resolverCalls (snd (processTxn exEnv (mkTimings 900) txFirstMissing world0)) = [PublicKey ''T9'']"
proof -
  have r: "resolved exEnv (mkLookup ''T1'' [1] [0])" "\<not> resolved exEnv (mkLookup ''T9'' [0] [])"
    "resolved exEnv (mkLookup ''T1'' [0] [])"
    by (simp_all add: resolved_def exEnv_def mkLookup_def)
  then have h: "\<forall>l\<in>set (addressTableLookups (message txViaTable)). resolved exEnv l"
    by (simp add: txViaTable_def mkTxn_def)
  from C8_resolver_calls[of exEnv "mkTimings 900" txViaTable world0] h
  have a: "resolverCalls (snd (processTxn exEnv (mkTimings 900) txViaTable world0)) =
          resolverCalls world0 @ map accountKey (addressTableLookups (message txViaTable))"
    by blast
  from C8_resolver_calls[of exEnv "mkTimings 900" txFirstMissing world0]
  have b: "resolverCalls (snd (processTxn exEnv (mkTimings 900) txFirstMissing world0)) =
     resolverCalls world0 @ map accountKey
       (takeWhile (resolved exEnv) (addressTableLookups (message txFirstMissing)) @
        take 1 (dropWhile (resolved exEnv) (addressTableLookups (message txFirstMissing))))"
    by blast
  have a': "resolverCalls (snd (processTxn exEnv (mkTimings 900) txViaTable world0)) = [PublicKey ''T1'']"
    unfolding a by (simp add: txViaTable_def mkTxn_def mkLookup_def world0_def)
  have b': "resolverCalls (snd (processTxn exEnv (mkTimings 900) txFirstMissing world0)) = [PublicKey ''T9'']"
    unfolding b using r by (simp add: txFirstMissing_def mkTxn_def world0_def) (simp add: mkLookup_def)
  from r a' b' show ?thesis by simp
qed

text \<open>
  Claim C9. For a transaction without lookup-table references the provider is not
  called, the list of resolved tables is empty, and \<open>getAccountKeys\<close> is called once, with
  the empty list; whether a key list results is decided by that call alone. With the
  library's \<open>getAccountKeys\<close> the key list consists of the static keys only.
\<close>

theorem C9_no_lookups:
  assumes "addressTableLookups (message tx) = []"
  shows "resolveLookups env (addressTableLookups (message tx)) [] w = ([], w)
    \<and> resolverCalls (snd (processTxn env tm tx w)) = resolverCalls w
    \<and> tablesFor env tx w = []
    \<and> keyListCalls (snd (processTxn env tm tx w)) = keyListCalls w @ [[]]
    \<and> accountKeysOf env tx w =
        (case getAccountKeys env (message tx) [] of Inl e \<Rightarrow> None | Inr ak \<Rightarrow> Some ak)
    \<and> (getAccountKeys env = libGetAccountKeys \<longrightarrow>
         accountKeysOf env tx w = Some \<lparr>keySegments = [staticAccountKeys (message tx), [], []]\<rparr>)"
proof -
  have t: "tablesFor env tx w = []" by (simp add: tablesFor_def assms)
  have a: "accountKeysOf env tx w =
        (case getAccountKeys env (message tx) [] of Inl e \<Rightarrow> None | Inr ak \<Rightarrow> Some ak)"
    by (simp add: accountKeysOf_eq t)
  have l: "accountKeysOf env tx w = Some \<lparr>keySegments = [staticAccountKeys (message tx), [], []]\<rparr>"
    if "getAccountKeys env = libGetAccountKeys"
    by (simp add: a that libGetAccountKeys_no_lookups[OF assms])
  show ?thesis
    using t a l by (simp add: assms processTxn_resolverCalls processTxn_keyListCalls)
qed

theorem C9_no_lookups_witness:
  "addressTableLookups (message txPlain) = []
   \<and> resolverCalls (snd (processTxn exEnv (mkTimings 900) txPlain world0)) = []
   \<and> keyListCalls (snd (processTxn exEnv (mkTimings 900) txPlain world0)) = [[]]
   \<and> accountKeysOf exEnv txPlain world0 = Some keysPlain"
proof -
  have h: "addressTableLookups (message txPlain) = []" by (simp add: txPlain_def mkTxn_def)
  have g: "getAccountKeys exEnv = libGetAccountKeys" by (simp add: exEnv_def)
  have k: "\<lparr>keySegments = [staticAccountKeys (message txPlain), [], []]\<rparr> = keysPlain"
    by (simp add: keysPlain_def txPlain_def mkTxn_def)
  from C9_no_lookups[OF h, where env = exEnv and tm = "mkTimings 900" and w = world0] g
  have "resolverCalls (snd (processTxn exEnv (mkTimings 900) txPlain world0)) = resolverCalls world0"
    and "keyListCalls (snd (processTxn exEnv (mkTimings 900) txPlain world0)) = keyListCalls world0 @ [[]]"
    and "accountKeysOf exEnv txPlain world0 = Some \<lparr>keySegments = [staticAccountKeys (message txPlain), [], []]\<rparr>"
    by blast+
  with h show ?thesis unfolding k by (simp add: world0_def)
qed

text \<open>
  Claim C10. The accounts of interest of every emitted record are the key strings of the
  transaction's key list that are of interest, each once, in the order of their first
  occurrence in the key list.
\<close>

theorem C10_accounts_of_interest:
  assumes "f \<in> set (emitted (preSimulationFilter env us w))"
  shows "distinct (accountsOfInterest f)
    \<and> (\<forall>a\<in>set (accountsOfInterest f). isTokenAccountOfInterest env a)
    \<and> (\<exists>ak. accountKeysOf env (txn f) w = Some ak
          \<and> accountsOfInterest f =
              firstSeen (filter (isTokenAccountOfInterest env) (map toBase58 (concat (keySegments ak)))))"
proof -
  from assms have "f \<in> set (emitted (forUpdates env us w))"
    by (simp add: preSimulationFilter_def)
  from forUpdates_mem[OF this]
  obtain u :: MempoolUpdate and tx w'
    where y: "fst (processTxn env (mempoolTimings u) tx w') = Yield f"
    by auto
  from processTxn_yield[OF y] obtain ak where ak: "accountKeysOf env tx w' = Some ak"
    and f: "f = \<lparr>txn = tx,
                accountsOfInterest = firstSeen (map toBase58 (filter (ofInterest env) (concat (keySegments ak)))),
                timings = \<lparr>mempoolEnd = mempoolEnd (mempoolTimings u),
                           preSimEnd = now env (clockReads w'),
                           simEnd = 0, postSimEnd = 0, calcArbEnd = 0,
                           buildBundleEnd = 0, bundleSent = 0\<rparr>\<rparr>"
    by blast
  have m: "map toBase58 (filter (ofInterest env) ks) = filter (isTokenAccountOfInterest env) (map toBase58 ks)" for ks
    by (induction ks) (simp_all add: ofInterest_def)
  have 1: "accountsOfInterest f = firstSeen (filter (isTokenAccountOfInterest env) (map toBase58 (concat (keySegments ak))))"
    by (simp add: f m)
  have 2: "accountKeysOf env (txn f) w = Some ak"
    using ak accountKeysOf_any[of env tx w w'] by (simp add: f)
  have 3: "distinct (accountsOfInterest f)" unfolding 1 by (rule distinct_firstSeen)
  have 4: "\<forall>a\<in>set (accountsOfInterest f). isTokenAccountOfInterest env a"
    unfolding 1 by (simp add: set_firstSeen)
  from 1 2 3 4 show ?thesis by blast
qed

theorem C10_accounts_of_interest_witness:
  "emitted (preSimulationFilter exEnv [exUpdate [txBoring, txPlain]] world0) = [ftPlain 1000]
   \<and> accountKeysOf exEnv (txn (ftPlain 1000)) world0 = Some keysPlain
   \<and> map toBase58 (concat (keySegments keysPlain)) = [''A'', ''B'', ''C'', ''B'']
   \<and> accountsOfInterest (ftPlain 1000) = [''B'', ''C'']
   \<and> distinct (accountsOfInterest (ftPlain 1000))
   \<and> isTokenAccountOfInterest exEnv ''B'' \<and> isTokenAccountOfInterest exEnv ''C''"
proof -
  have e: "emitted (preSimulationFilter exEnv [exUpdate [txBoring, txPlain]] world0) = [ftPlain 1000]"
    by (simp add: ftPlain_def ex_defs run_defs)
  then have h: "ftPlain 1000 \<in> set (emitted (preSimulationFilter exEnv [exUpdate [txBoring, txPlain]] world0))"
    by simp
  have k: "accountKeysOf exEnv (txn (ftPlain 1000)) world0 = Some keysPlain"
    by (simp add: ftPlain_def accountKeysOf_def keysPlain_def ex_defs run_defs)
  have v: "accountsOfInterest (ftPlain 1000) = [''B'', ''C'']" by (simp add: ftPlain_def)
  have s: "map toBase58 (concat (keySegments keysPlain)) = [''A'', ''B'', ''C'', ''B'']"
    by (simp add: keysPlain_def)
  from C10_accounts_of_interest[OF h] have
    "distinct (accountsOfInterest (ftPlain 1000))"
    "\<forall>a\<in>set (accountsOfInterest (ftPlain 1000)). isTokenAccountOfInterest exEnv a"
    by blast+
  with e k v s show ?thesis by simp
qed

end
